theory Spec2Isabelle
  imports Main
begin

section \<open>GLib string functions called by modeline.c\<close>

text \<open>
  C strings are modelled as \<^typ>\<open>string\<close> (byte lists without the terminating NUL); a
  pointer that may be \<open>NULL\<close> is an \<^typ>\<open>'a option\<close> with \<^term>\<open>None\<close> for \<open>NULL\<close>.
  A \<open>NULL\<close>-terminated string vector (\<open>gchar **\<close>) is a \<^typ>\<open>string list\<close> that holds
  the entries before the terminator.  The functions of this section belong to GLib, not
  to the plugin; they are written after GLib's reference manual, for the arguments the
  plugin passes.
\<close>

definition g_ascii_isspace :: "char \<Rightarrow> bool" where
  \<comment> \<open>space, \<open>\t\<close>, \<open>\n\<close>, \<open>\f\<close>, \<open>\r\<close> (not \<open>\v\<close>)\<close>
  "g_ascii_isspace c =
     (c = CHR '' '' \<or> c = CHR 0x09 \<or> c = CHR 0x0A \<or> c = CHR 0x0C \<or> c = CHR 0x0D)"

definition g_strchug :: "string \<Rightarrow> string" where
  "g_strchug s = dropWhile g_ascii_isspace s"

definition g_strchomp :: "string \<Rightarrow> string" where
  "g_strchomp s = rev (dropWhile g_ascii_isspace (rev s))"

definition g_strstrip :: "string \<Rightarrow> string" where
  \<comment> \<open>\<open>#define g_strstrip(string) g_strchomp (g_strchug (string))\<close>\<close>
  "g_strstrip s = g_strchomp (g_strchug s)"

definition g_ascii_tolower :: "char \<Rightarrow> char" where
  "g_ascii_tolower c =
     (if (65::nat) \<le> of_char c \<and> of_char c \<le> (90::nat)
      then char_of (of_char c + (32::nat)) else c)"

fun g_ascii_strcasecmp :: "string \<Rightarrow> string \<Rightarrow> int" where
  "g_ascii_strcasecmp [] [] = 0"
| "g_ascii_strcasecmp [] (c2 # s2) = - of_char c2"
| "g_ascii_strcasecmp (c1 # s1) [] = of_char c1"
| "g_ascii_strcasecmp (c1 # s1) (c2 # s2) =
     (if g_ascii_tolower c1 \<noteq> g_ascii_tolower c2
      then of_char (g_ascii_tolower c1) - of_char (g_ascii_tolower c2)
      else g_ascii_strcasecmp s1 s2)"

fun str_has_prefix :: "string \<Rightarrow> string \<Rightarrow> bool" where
  \<comment> \<open>\<open>str_has_prefix s p\<close>: the string \<open>s\<close> starts with \<open>p\<close>\<close>
  "str_has_prefix s [] = True"
| "str_has_prefix [] (c # p) = False"
| "str_has_prefix (d # s) (c # p) = (d = c \<and> str_has_prefix s p)"

fun g_strstr_len :: "string \<Rightarrow> int \<Rightarrow> string \<Rightarrow> string option" where
  \<comment> \<open>with a negative length this is \<open>strstr\<close>: the rest of the haystack from the first
      occurrence of the needle on, \<open>NULL\<close> when there is none\<close>
  "g_strstr_len [] len needle = (if needle = [] then Some [] else None)"
| "g_strstr_len (c # s) len needle =
     (if str_has_prefix (c # s) needle then Some (c # s) else g_strstr_len s len needle)"

fun split_first :: "string \<Rightarrow> string \<Rightarrow> (string \<times> string) option" where
  \<comment> \<open>the text before and the text after the first occurrence of the delimiter\<close>
  "split_first [] delim = (if delim = [] then Some ([], []) else None)"
| "split_first (c # s) delim =
     (if str_has_prefix (c # s) delim then Some ([], drop (length delim) (c # s))
      else (case split_first s delim of
              None \<Rightarrow> None
            | Some (before, after) \<Rightarrow> Some (c # before, after)))"

fun strsplit_pieces :: "nat \<Rightarrow> string \<Rightarrow> string \<Rightarrow> string list" where
  \<comment> \<open>at most \<open>Suc n\<close> pieces; the last piece is the unsplit remainder\<close>
  "strsplit_pieces 0 remainder delim = [remainder]"
| "strsplit_pieces (Suc n) remainder delim =
     (case split_first remainder delim of
        None \<Rightarrow> [remainder]
      | Some (before, after) \<Rightarrow> before # strsplit_pieces n after delim)"

definition G_MAXINT :: nat where
  "G_MAXINT = 2147483647"

definition g_strsplit :: "string \<Rightarrow> string \<Rightarrow> int \<Rightarrow> string list option" where
  \<comment> \<open>\<open>NULL\<close> only for an empty delimiter (a failed precondition); the empty string gives
      the empty vector; \<open>max_tokens < 1\<close> means no limit\<close>
  "g_strsplit string delimiter max_tokens =
     (if delimiter = [] then None
      else if string = [] then Some []
      else Some (strsplit_pieces
                   ((if max_tokens < 1 then G_MAXINT else nat max_tokens) - 1)
                   string delimiter))"

fun split_set_fields :: "string \<Rightarrow> string \<Rightarrow> string list" where
  \<comment> \<open>the maximal runs without a delimiter byte, an empty one between two adjacent
      delimiters and at either end\<close>
  "split_set_fields [] delimiters = [[]]"
| "split_set_fields (c # s) delimiters =
     (if c \<in> set delimiters then [] # split_set_fields s delimiters
      else (case split_set_fields s delimiters of
              [] \<Rightarrow> [[c]]
            | f # fs \<Rightarrow> (c # f) # fs))"

definition g_strsplit_set :: "string \<Rightarrow> string \<Rightarrow> int \<Rightarrow> string list" where
  \<comment> \<open>only \<open>max_tokens < 1\<close> (no limit) is modelled, the plugin passes 0; the empty
      string gives the empty vector\<close>
  "g_strsplit_set string delimiters max_tokens =
     (if string = [] then [] else split_set_fields string delimiters)"

definition strv_nth :: "string list \<Rightarrow> nat \<Rightarrow> string option" where
  \<comment> \<open>\<open>v[i]\<close> on a \<open>NULL\<close>-terminated vector: the terminator is read as \<open>NULL\<close>\<close>
  "strv_nth v i = (if i < length v then Some (v ! i) else None)"

subsection \<open>\<open>g_ascii_strtoull\<close>\<close>

definition strtoull_isspace :: "char \<Rightarrow> bool" where
  \<comment> \<open>the white space \<open>strtoull\<close> skips in the C locale\<close>
  "strtoull_isspace c =
     (c = CHR '' '' \<or> c = CHR 0x0C \<or> c = CHR 0x0A \<or> c = CHR 0x0D \<or> c = CHR 0x09
      \<or> c = CHR 0x0B)"

definition digit_value :: "char \<Rightarrow> nat option" where
  \<comment> \<open>\<open>'0'..'9'\<close> are 0..9, letters of either case are 10..35\<close>
  "digit_value c =
     (let n = (of_char c :: nat) in
      if 48 \<le> n \<and> n \<le> 57 then Some (n - 48)
      else if 65 \<le> n \<and> n \<le> 90 then Some (n - 65 + 10)
      else if 97 \<le> n \<and> n \<le> 122 then Some (n - 97 + 10)
      else None)"

definition G_MAXUINT64 :: nat where
  "G_MAXUINT64 = 18446744073709551615"

fun parse_digits :: "nat \<Rightarrow> string \<Rightarrow> nat \<times> bool \<times> nat \<Rightarrow> nat \<times> bool \<times> nat" where
  \<comment> \<open>the digit loop: the value so far, the overflow flag, the number of bytes consumed\<close>
  "parse_digits base [] st = st"
| "parse_digits base (c # s) (ui64, overflow, used) =
     (case digit_value c of
        None \<Rightarrow> (ui64, overflow, used)
      | Some d \<Rightarrow>
          if d \<ge> base then (ui64, overflow, used)
          else if ui64 > G_MAXUINT64 div base
                  \<or> (ui64 = G_MAXUINT64 div base \<and> d > G_MAXUINT64 mod base)
          then parse_digits base s (ui64, True, Suc used)
          else parse_digits base s (ui64 * base + d, overflow, Suc used))"

definition strtoull_negative :: "string \<Rightarrow> bool" where
  \<comment> \<open>a minus sign follows the leading white space\<close>
  "strtoull_negative nptr =
     (case dropWhile strtoull_isspace nptr of [] \<Rightarrow> False | c # r \<Rightarrow> c = CHR ''-'')"

definition strtoull_subject :: "string \<Rightarrow> string" where
  \<comment> \<open>the text after the leading white space and the optional sign\<close>
  "strtoull_subject nptr =
     (case dropWhile strtoull_isspace nptr of
        [] \<Rightarrow> []
      | c # r \<Rightarrow> if c = CHR ''-'' \<or> c = CHR ''+'' then r else c # r)"

definition g_ascii_strtoull :: "string \<Rightarrow> nat \<Rightarrow> nat" where
  \<comment> \<open>for a base from 2 to 36 other than 16 (the plugin passes 10): white space, an
      optional sign, digits; 0 when there is no digit, \<open>G_MAXUINT64\<close> on overflow, and
      a leading minus negates the value modulo \<open>2 ^ 64\<close>\<close>
  "g_ascii_strtoull nptr base =
     (let (ui64, overflow, used) = parse_digits base (strtoull_subject nptr) (0, False, 0);
          result = (if used = 0 then 0 else if overflow then G_MAXUINT64 else ui64)
      in if strtoull_negative nptr then (2 ^ 64 - result) mod 2 ^ 64 else result)"

definition gint_of_guint64 :: "nat \<Rightarrow> int" where
  \<comment> \<open>the assignment \<open>iarg = g_ascii_strtoull (...)\<close> narrows a \<open>guint64\<close> to the 32-bit
      \<open>gint\<close>: the low 32 bits, read as two's complement\<close>
  "gint_of_guint64 n =
     (let m = n mod 2 ^ 32 in if m < 2 ^ 31 then int m else int m - 2 ^ 32)"

section \<open>The document and the editor operations the plugin calls\<close>

datatype GeanyIndentType =
  GEANY_INDENT_TYPE_SPACES | GEANY_INDENT_TYPE_TABS | GEANY_INDENT_TYPE_BOTH

datatype wrap_mode = SC_WRAP_NONE | SC_WRAP_WORD | SC_WRAP_CHAR

text \<open>
  The argument a handler receives through its \<open>void *arg\<close>: a pointer to a \<open>gint\<close> or a
  string.
\<close>

datatype arg = IArg int | SArg string

text \<open>One entry of the log of handler invocations: which handler ran, with what.\<close>

datatype handler_call =
  Opt_expand_tab int | Opt_tab_stop int | Opt_wrap int | Opt_enc string

text \<open>
  The part of a \<open>GeanyDocument\<close> the plugin reads or writes, with \<open>doc->editor\<close> and its
  Scintilla widget flattened into the same record.  \<open>calls\<close> and \<open>reloads\<close> are not
  fields of the C structure: \<open>calls\<close> logs the handler invocations in order (what the
  handlers' \<open>debugf\<close> lines print), \<open>reloads\<close> the encodings of the forced reloads.
\<close>

record GeanyDocument =
  is_valid :: bool
  sci_lines :: "string list"
  indent_type :: GeanyIndentType
  indent_width :: int
  line_wrapping :: int
  sci_wrap_mode :: wrap_mode
  encoding :: string
  calls :: "handler_call list"
  reloads :: "string list"

record GeanyIndentPrefs =
  prefs_width :: int
  prefs_type :: GeanyIndentType

text \<open>
  Modelled from the spec: the host editor's operations (Geany's plugin API, which is not
  part of this repository), as the spec lists them under "Collaborator operations
  consumed": get line count, get the text of line N, get the current indent-style
  preference, set indent style, set indent width, set line-wrap mode, set the document
  encoding by name, force a reload with a given encoding.  Each one reads or writes its
  own field and nothing else.
\<close>

definition sci_get_line_count :: "GeanyDocument \<Rightarrow> nat" where
  "sci_get_line_count doc = length (sci_lines doc)"

definition sci_get_line :: "GeanyDocument \<Rightarrow> nat \<Rightarrow> string" where
  \<comment> \<open>only called with \<open>line < sci_get_line_count doc\<close>\<close>
  "sci_get_line doc line = sci_lines doc ! line"

definition editor_get_indent_prefs :: "GeanyDocument \<Rightarrow> GeanyIndentPrefs" where
  "editor_get_indent_prefs doc =
     \<lparr>prefs_width = indent_width doc, prefs_type = indent_type doc\<rparr>"

definition editor_set_indent_type :: "GeanyDocument \<Rightarrow> GeanyIndentType \<Rightarrow> GeanyDocument" where
  "editor_set_indent_type doc t = doc\<lparr>indent_type := t\<rparr>"

definition editor_set_indent_width :: "GeanyDocument \<Rightarrow> int \<Rightarrow> GeanyDocument" where
  "editor_set_indent_width doc w = doc\<lparr>indent_width := w\<rparr>"

definition sci_set_wrap_mode :: "GeanyDocument \<Rightarrow> wrap_mode \<Rightarrow> GeanyDocument" where
  \<comment> \<open>\<open>scintilla_send_message (sci, SCI_SETWRAPMODE, mode, 0)\<close>\<close>
  "sci_set_wrap_mode doc m = doc\<lparr>sci_wrap_mode := m\<rparr>"

definition document_set_encoding :: "GeanyDocument \<Rightarrow> string \<Rightarrow> GeanyDocument" where
  "document_set_encoding doc enc = doc\<lparr>encoding := enc\<rparr>"

definition document_reload_force :: "GeanyDocument \<Rightarrow> string \<Rightarrow> GeanyDocument" where
  "document_reload_force doc enc = doc\<lparr>reloads := reloads doc @ [enc]\<rparr>"

section \<open>The option table and the handlers\<close>

datatype mode_opt_arg =
  MODE_OPT_ARG_INT | MODE_OPT_ARG_TRUE | MODE_OPT_ARG_FALSE | MODE_OPT_ARG_STR

record mode_opt =
  name :: string
  alias_name :: "string option"
  arg_type :: mode_opt_arg
  cb :: "GeanyDocument \<Rightarrow> arg \<Rightarrow> GeanyDocument"

text \<open>
  Each handler casts its \<open>void *arg\<close> to the type it expects.  The table below pairs
  every handler with an argument kind of that type, so the other constructor of
  \<^typ>\<open>arg\<close> never reaches a handler and has no equation.
\<close>

fun opt_expand_tab :: "GeanyDocument \<Rightarrow> arg \<Rightarrow> GeanyDocument" where
  "opt_expand_tab doc (IArg iarg) =
     editor_set_indent_type (doc\<lparr>calls := calls doc @ [Opt_expand_tab iarg]\<rparr>)
       (if iarg \<noteq> 0 then GEANY_INDENT_TYPE_SPACES else GEANY_INDENT_TYPE_TABS)"

fun opt_tab_stop :: "GeanyDocument \<Rightarrow> arg \<Rightarrow> GeanyDocument" where
  \<comment> \<open>the preferences are fetched before the width is set, and \<open>prefs->type\<close> is read
      after it; setting the width does not change the type, so both reads agree\<close>
  "opt_tab_stop doc (IArg iarg) =
     (let prefs = editor_get_indent_prefs doc;
          doc1 = doc\<lparr>calls := calls doc @ [Opt_tab_stop iarg]\<rparr>;
          doc2 = editor_set_indent_width doc1 iarg
      in editor_set_indent_type doc2 (prefs_type prefs))"

fun opt_wrap :: "GeanyDocument \<Rightarrow> arg \<Rightarrow> GeanyDocument" where
  "opt_wrap doc (IArg iarg) =
     (let doc1 = doc\<lparr>calls := calls doc @ [Opt_wrap iarg]\<rparr>;
          doc2 = doc1\<lparr>line_wrapping := iarg\<rparr>
      in sci_set_wrap_mode doc2 (if iarg \<noteq> 0 then SC_WRAP_WORD else SC_WRAP_NONE))"

fun opt_enc :: "GeanyDocument \<Rightarrow> arg \<Rightarrow> GeanyDocument" where
  "opt_enc doc (SArg str) =
     document_set_encoding (doc\<lparr>calls := calls doc @ [Opt_enc str]\<rparr>) str"

definition opts :: "mode_opt list" where
  \<comment> \<open>the entries before the \<open>NULL\<close> sentinel\<close>
  "opts =
    [\<lparr>name = ''expandtab'', alias_name = Some ''et'', arg_type = MODE_OPT_ARG_TRUE,
      cb = opt_expand_tab\<rparr>,
     \<lparr>name = ''noexpandtab'', alias_name = None, arg_type = MODE_OPT_ARG_FALSE,
      cb = opt_expand_tab\<rparr>,
     \<lparr>name = ''tabstop'', alias_name = Some ''ts'', arg_type = MODE_OPT_ARG_INT,
      cb = opt_tab_stop\<rparr>,
     \<lparr>name = ''softtabstop'', alias_name = Some ''sts'', arg_type = MODE_OPT_ARG_INT,
      cb = opt_tab_stop\<rparr>,
     \<lparr>name = ''shiftwidth'', alias_name = Some ''sw'', arg_type = MODE_OPT_ARG_INT,
      cb = opt_tab_stop\<rparr>,
     \<lparr>name = ''wrap'', alias_name = None, arg_type = MODE_OPT_ARG_TRUE,
      cb = opt_wrap\<rparr>,
     \<lparr>name = ''nowrap'', alias_name = None, arg_type = MODE_OPT_ARG_FALSE,
      cb = opt_wrap\<rparr>,
     \<lparr>name = ''fileencoding'', alias_name = Some ''encoding'', arg_type = MODE_OPT_ARG_STR,
      cb = opt_enc\<rparr>]"

definition mode_pre :: "string list" where
  "mode_pre = ['' geany:'', '' vi:'', '' vim:'', '' ex:'']"

section \<open>The interpreter, the tokenizer and the scanner\<close>

definition dispatch_option ::
  "GeanyDocument \<Rightarrow> mode_opt \<Rightarrow> string option \<Rightarrow> GeanyDocument" where
  \<comment> \<open>the \<open>switch (opts[i].arg_type)\<close> of \<open>interpret_option\<close>\<close>
  "dispatch_option doc opt val =
     (case arg_type opt of
        MODE_OPT_ARG_TRUE \<Rightarrow> cb opt doc (IArg 1)
      | MODE_OPT_ARG_FALSE \<Rightarrow> cb opt doc (IArg 0)
      | MODE_OPT_ARG_INT \<Rightarrow>
          (case val of
             Some v \<Rightarrow> cb opt doc (IArg (gint_of_guint64 (g_ascii_strtoull (g_strstrip v) 10)))
           | None \<Rightarrow> doc)
      | MODE_OPT_ARG_STR \<Rightarrow>
          (case val of Some v \<Rightarrow> cb opt doc (SArg v) | None \<Rightarrow> doc))"

fun lookup_option ::
  "GeanyDocument \<Rightarrow> string \<Rightarrow> string option \<Rightarrow> mode_opt list \<Rightarrow> GeanyDocument" where
  \<comment> \<open>the \<open>for (i = 0; opts[i].name; i++)\<close> loop of \<open>interpret_option\<close>\<close>
  "lookup_option doc key val [] = doc"
| "lookup_option doc key val (opt # rest) =
     (if g_ascii_strcasecmp (name opt) key = 0
         \<or> (case alias_name opt of None \<Rightarrow> False | Some a \<Rightarrow> g_ascii_strcasecmp a key = 0)
      then dispatch_option doc opt val
      else lookup_option doc key val rest)"

definition interpret_option :: "GeanyDocument \<Rightarrow> string \<Rightarrow> GeanyDocument" where
  \<comment> \<open>for the empty string the vector is empty and \<open>kv[0]\<close> is its terminator; the C code
      then also loads \<open>kv[1]\<close>, one slot past the terminator, and never uses it\<close>
  "interpret_option doc opt =
     (case g_strsplit opt ''='' 2 of
        Some kv \<Rightarrow>
          (case strv_nth kv 0 of
             None \<Rightarrow> doc
           | Some key \<Rightarrow>
               (case strv_nth kv 1 of
                  None \<Rightarrow> doc
                | Some val \<Rightarrow> lookup_option doc key (Some val) opts))
      | None \<Rightarrow> lookup_option doc opt None opts)"

definition parse_options_tokens :: "string \<Rightarrow> string list option" where
  \<comment> \<open>the entries \<open>tok[1]\<close>, \<open>tok[2]\<close>, ... that the loop of \<open>parse_options\<close> visits;
      on the empty vector the loop would start past the terminator (\<open>None\<close>)\<close>
  "parse_options_tokens buf =
     (case g_strsplit_set buf '': ,'' 0 of
        [] \<Rightarrow> None
      | tok0 # toks \<Rightarrow> Some toks)"

fun interpret_options :: "GeanyDocument \<Rightarrow> string list \<Rightarrow> GeanyDocument" where
  \<comment> \<open>the body of that loop; its test \<open>if (tok[i])\<close> repeats the loop condition and
      always holds\<close>
  "interpret_options doc [] = doc"
| "interpret_options doc (t # toks) = interpret_options (interpret_option doc t) toks"

definition parse_options :: "GeanyDocument \<Rightarrow> string \<Rightarrow> GeanyDocument option" where
  "parse_options doc buf =
     (case parse_options_tokens buf of
        None \<Rightarrow> None
      | Some toks \<Rightarrow> Some (interpret_options doc toks))"

fun match_mode_pre :: "string \<Rightarrow> string list \<Rightarrow> bool" where
  \<comment> \<open>the \<open>for (i = 0; mode_pre[i] != NULL; i++)\<close> loop of \<open>scan_document\<close>\<close>
  "match_mode_pre buf [] = False"
| "match_mode_pre buf (pre # rest) =
     (if g_strstr_len buf (- 1) pre \<noteq> None then True else match_mode_pre buf rest)"

function scan_lines :: "GeanyDocument \<Rightarrow> nat \<Rightarrow> nat \<Rightarrow> GeanyDocument option" where
  \<comment> \<open>the \<open>for (line = 0; line < MIN(lines, 50); line++)\<close> loop, from \<open>line\<close> on\<close>
  "scan_lines doc lines line =
     (if line < min lines 50
      then (let buf = g_strstrip (sci_get_line doc line)
            in if match_mode_pre buf mode_pre then parse_options doc buf
               else scan_lines doc lines (Suc line))
      else Some doc)"
  by pat_completeness auto
termination
  by (relation "measure (\<lambda>(doc, lines, line). min lines 50 - line)") auto

definition scan_document :: "GeanyDocument \<Rightarrow> GeanyDocument option" where
  "scan_document doc =
     (if \<not> is_valid doc then Some doc
      else scan_lines doc (sci_get_line_count doc) 0)"

definition on_document_open :: "GeanyDocument \<Rightarrow> GeanyDocument option" where
  "on_document_open doc =
     (case scan_document doc of
        None \<Rightarrow> None
      | Some doc' \<Rightarrow> Some (document_reload_force doc' (encoding doc')))"

definition on_document_save :: "GeanyDocument \<Rightarrow> GeanyDocument option" where
  "on_document_save doc = scan_document doc"

text \<open>
  The configuration of a document: indent style, indent width, line-wrap mode (the
  editor's flag and the widget's mode) and encoding.
\<close>

definition config ::
  "GeanyDocument \<Rightarrow> GeanyIndentType \<times> int \<times> int \<times> wrap_mode \<times> string" where
  "config doc =
     (indent_type doc, indent_width doc, line_wrapping doc, sci_wrap_mode doc, encoding doc)"

section \<open>Notions used to state the properties\<close>

text \<open>
  A line contains a recognized prefix when one of the strings of \<open>mode_pre\<close> occurs in
  it as a substring, anywhere.
\<close>

definition contains_mode_pre :: "string \<Rightarrow> bool" where
  "contains_mode_pre buf = (\<exists>pre \<in> set mode_pre. \<exists>u v. buf = u @ pre @ v)"

text \<open>The number a string of decimal digits denotes, without any bound.\<close>

definition is_digit :: "char \<Rightarrow> bool" where
  "is_digit c = ((48::nat) \<le> of_char c \<and> of_char c \<le> (57::nat))"

fun dec_from :: "nat \<Rightarrow> string \<Rightarrow> nat" where
  "dec_from acc [] = acc"
| "dec_from acc (c # s) = dec_from (10 * acc + (of_char c - 48)) s"

definition dec_value :: "string \<Rightarrow> nat" where
  "dec_value s = dec_from 0 s"

text \<open>
  The tokens the scanner hands to the interpreter for a document: those of the first
  line, among the first 50, that contains a recognized prefix; none when the document
  is not valid or has no such line.
\<close>

definition modeline_tokens :: "GeanyDocument \<Rightarrow> string list" where
  "modeline_tokens doc =
     (if is_valid doc
      then (case find contains_mode_pre (map g_strstrip (take 50 (sci_lines doc))) of
              None \<Rightarrow> []
            | Some buf \<Rightarrow> (case parse_options_tokens buf of None \<Rightarrow> [] | Some toks \<Rightarrow> toks))
      else [])"

text \<open>
  A field \<open>x\<close> of the document is, under a state transformer \<open>F\<close>, either overwritten
  with a value that does not depend on the document or left as it is.
\<close>

definition const_or_id ::
  "(GeanyDocument \<Rightarrow> 'a) \<Rightarrow> (GeanyDocument \<Rightarrow> GeanyDocument) \<Rightarrow> bool" where
  "const_or_id x F = ((\<exists>c. \<forall>d. x (F d) = c) \<or> (\<forall>d. x (F d) = x d))"

text \<open>
  A document as the editor might hold it before the plugin runs: tabs of width 8, no
  wrapping, UTF-8, nothing logged.
\<close>

definition new_document :: "bool \<Rightarrow> string list \<Rightarrow> GeanyDocument" where
  "new_document valid lines =
     \<lparr>is_valid = valid, sci_lines = lines, indent_type = GEANY_INDENT_TYPE_TABS,
      indent_width = 8, line_wrapping = 0, sci_wrap_mode = SC_WRAP_NONE,
      encoding = ''UTF-8'', calls = [], reloads = []\<rparr>"

section \<open>What \<open>g_strsplit (opt, "=", 2)\<close> returns\<close>

lemma split_first_equals:
  "split_first s ''='' =
     (if CHR ''='' \<in> set s
      then Some (takeWhile (\<lambda>c. c \<noteq> CHR ''='') s, tl (dropWhile (\<lambda>c. c \<noteq> CHR ''='') s))
      else None)"
  by (induction s) auto

lemma g_strsplit_equals:
  "g_strsplit opt ''='' 2 =
     Some (if opt = [] then []
           else if CHR ''='' \<in> set opt
           then [takeWhile (\<lambda>c. c \<noteq> CHR ''='') opt,
                 tl (dropWhile (\<lambda>c. c \<noteq> CHR ''='') opt)]
           else [opt])"
  by (simp add: g_strsplit_def split_first_equals numeral_2_eq_2)

text \<open>
  The vector is never \<open>NULL\<close>, so the \<open>else\<close> branch of \<open>interpret_option\<close> (key = the
  whole token, no value) is never taken: a token without \<open>=\<close> gives a one-entry vector,
  \<open>kv[1]\<close> is its terminator, and the function returns before the table is searched.
\<close>

lemma interpret_option_cases:
  "interpret_option doc opt =
     (if CHR ''='' \<in> set opt
      then lookup_option doc (takeWhile (\<lambda>c. c \<noteq> CHR ''='') opt)
             (Some (tl (dropWhile (\<lambda>c. c \<noteq> CHR ''='') opt))) opts
      else doc)"
  by (auto simp add: interpret_option_def g_strsplit_equals strv_nth_def)

lemma takeWhile_key_value:
  "c \<notin> set key \<Longrightarrow> takeWhile (\<lambda>x. x \<noteq> c) (key @ c # val) = key"
  by (induction key) auto

lemma dropWhile_key_value:
  "c \<notin> set key \<Longrightarrow> dropWhile (\<lambda>x. x \<noteq> c) (key @ c # val) = c # val"
  by (induction key) auto

lemma interpret_option_key_value:
  "CHR ''='' \<notin> set key \<Longrightarrow>
     interpret_option doc (key @ CHR ''='' # val) = lookup_option doc key (Some val) opts"
  by (simp add: interpret_option_cases takeWhile_key_value dropWhile_key_value)

lemma lookup_option_empty_key: "lookup_option doc [] val opts = doc"
  by (simp add: opts_def)

lemmas strtoull_eval =
  g_ascii_strtoull_def strtoull_negative_def strtoull_subject_def strtoull_isspace_def
  digit_value_def G_MAXUINT64_def gint_of_guint64_def

lemmas strstrip_eval = g_strstrip_def g_strchug_def g_strchomp_def g_ascii_isspace_def

lemmas host_defs =
  editor_get_indent_prefs_def editor_set_indent_width_def editor_set_indent_type_def
  sci_set_wrap_mode_def document_set_encoding_def

lemma interpret_option_no_equals: "CHR ''='' \<notin> set opt \<Longrightarrow> interpret_option doc opt = doc"
  by (simp add: interpret_option_cases)

lemma interpret_option_Nil: "interpret_option doc [] = doc"
  by (simp add: interpret_option_cases)

lemma interpret_option_ts:
  "interpret_option doc (''ts='' @ val) =
     opt_tab_stop doc (IArg (gint_of_guint64 (g_ascii_strtoull (g_strstrip val) 10)))"
proof -
  have "interpret_option doc (''ts'' @ CHR ''='' # val) = lookup_option doc ''ts'' (Some val) opts"
    by (rule interpret_option_key_value) simp
  also have "\<dots> = opt_tab_stop doc (IArg (gint_of_guint64 (g_ascii_strtoull (g_strstrip val) 10)))"
    by (simp add: opts_def dispatch_option_def g_ascii_tolower_def)
  finally show ?thesis by simp
qed

lemma interpret_option_sw:
  "interpret_option doc (''sw='' @ val) =
     opt_tab_stop doc (IArg (gint_of_guint64 (g_ascii_strtoull (g_strstrip val) 10)))"
proof -
  have "interpret_option doc (''sw'' @ CHR ''='' # val) = lookup_option doc ''sw'' (Some val) opts"
    by (rule interpret_option_key_value) simp
  also have "\<dots> = opt_tab_stop doc (IArg (gint_of_guint64 (g_ascii_strtoull (g_strstrip val) 10)))"
    by (simp add: opts_def dispatch_option_def g_ascii_tolower_def)
  finally show ?thesis by simp
qed

lemma strtoull_small_values:
  "gint_of_guint64 (g_ascii_strtoull (g_strstrip []) 10) = 0"
  "gint_of_guint64 (g_ascii_strtoull (g_strstrip ''2'') 10) = 2"
  "gint_of_guint64 (g_ascii_strtoull (g_strstrip ''4'') 10) = 4"
  "gint_of_guint64 (g_ascii_strtoull (g_strstrip ''8'') 10) = 8"
  by (simp_all add: strstrip_eval strtoull_eval)

section \<open>The interpreter on single tokens\<close>

text \<open>
  C1.  The claim: a bare flag is dispatched to its handler with its fixed boolean
  (\<open>et\<close> to the expand-tab handler with true, \<open>noexpandtab\<close> with false) and \<open>ts=4\<close> sets
  the indent width to 4.  The code does the last, but on \<open>et\<close> and \<open>noexpandtab\<close>, as on
  every string without \<open>=\<close> (any string with its \<open>=\<close> bytes filtered out is one), it
  returns at the \<open>!key || !val\<close> test: the document, its call log included, is left as
  it was.
\<close>

theorem interpret_option_bare_flag_dropped:
  "interpret_option doc ''et'' = doc
   \<and> interpret_option doc ''noexpandtab'' = doc
   \<and> interpret_option doc (filter (\<lambda>c. c \<noteq> CHR ''='') opt) = doc
   \<and> interpret_option doc ''ts=4'' = opt_tab_stop doc (IArg 4)
   \<and> indent_width (interpret_option doc ''ts=4'') = 4"
proof -
  have flags: "interpret_option doc ''et'' = doc" "interpret_option doc ''noexpandtab'' = doc"
    "interpret_option doc (filter (\<lambda>c. c \<noteq> CHR ''='') opt) = doc"
    by (simp_all add: interpret_option_no_equals)
  have ts: "interpret_option doc ''ts=4'' = opt_tab_stop doc (IArg 4)"
    using interpret_option_ts [of doc "''4''"] by (simp add: strtoull_small_values)
  have "indent_width (opt_tab_stop doc (IArg 4)) = 4"
    by (simp add: host_defs)
  with flags ts show ?thesis by simp
qed

text \<open>
  C2.  The claim: a token that starts or ends with \<open>=\<close> is a no-op.  That holds for a
  token that starts with \<open>=\<close> (its key is empty and matches no table entry), but \<open>ts=\<close>
  has the empty string as its value, not \<open>NULL\<close>: the tab-stop handler runs with 0.
\<close>

theorem interpret_option_trailing_equals_dispatched:
  "interpret_option doc ''ts='' = opt_tab_stop doc (IArg 0)
   \<and> indent_width (interpret_option doc ''ts='') = 0
   \<and> calls (interpret_option doc ''ts='') = calls doc @ [Opt_tab_stop 0]
   \<and> interpret_option doc (CHR ''='' # rest) = doc"
proof -
  have ts: "interpret_option doc ''ts='' = opt_tab_stop doc (IArg 0)"
    using interpret_option_ts [of doc "[]"] by (simp add: strtoull_small_values)
  have "interpret_option doc (CHR ''='' # rest) = doc"
    using interpret_option_key_value [of "[]" doc rest] by (simp add: lookup_option_empty_key)
  with ts show ?thesis by (simp add: host_defs)
qed

text \<open>
  C8.  Whatever integer the shared tab-stop handler is given, the indent width becomes
  that integer and the indent style stays the one configured before the call.
\<close>

theorem opt_tab_stop_sets_width_keeps_type:
  "indent_width (opt_tab_stop doc (IArg n)) = n
   \<and> indent_type (opt_tab_stop doc (IArg n)) = indent_type doc"
  by (simp add: editor_get_indent_prefs_def editor_set_indent_width_def
      editor_set_indent_type_def)

text \<open>
  C10.  The empty token is a no-op: the document, its call log included, is unchanged.
  So the empty fields that adjacent delimiters produce can be dropped from any token
  sequence without changing what the sequence does; \<open># vim:ts=4::sw=2\<close>, for one, has
  an empty token between \<open>ts=4\<close> and \<open>sw=2\<close> and is parsed to the same document as
  \<open># vim:ts=4:sw=2\<close>.
\<close>

theorem interpret_option_empty_token:
  "interpret_option doc [] = doc
   \<and> interpret_options doc (filter (\<lambda>t. t \<noteq> []) toks) = interpret_options doc toks
   \<and> parse_options_tokens ''# vim:ts=4::sw=2'' = Some [''vim'', ''ts=4'', [], ''sw=2'']
   \<and> parse_options doc ''# vim:ts=4::sw=2'' = parse_options doc ''# vim:ts=4:sw=2''"
proof -
  have f: "interpret_options d (filter (\<lambda>t. t \<noteq> []) toks) = interpret_options d toks" for d
    by (induction toks arbitrary: d) (simp_all add: interpret_option_Nil)
  have t2: "parse_options_tokens ''# vim:ts=4::sw=2'' = Some [''vim'', ''ts=4'', [], ''sw=2'']"
    by (simp add: parse_options_tokens_def g_strsplit_set_def)
  have t1: "parse_options_tokens ''# vim:ts=4:sw=2'' = Some [''vim'', ''ts=4'', ''sw=2'']"
    by (simp add: parse_options_tokens_def g_strsplit_set_def)
  have "parse_options doc ''# vim:ts=4::sw=2'' = parse_options doc ''# vim:ts=4:sw=2''"
    by (simp add: parse_options_def t1 t2 interpret_option_Nil)
  with f t2 show ?thesis by (simp add: interpret_option_Nil)
qed

section \<open>The tokenizer\<close>

lemma split_set_fields_not_Nil: "split_set_fields s ds \<noteq> []"
  by (induction s) (auto split: list.splits)

lemma parse_options_tokens_Some:
  "buf \<noteq> [] \<Longrightarrow> \<exists>toks. parse_options_tokens buf = Some toks"
  using split_set_fields_not_Nil [of buf "'': ,''"]
  by (auto simp: parse_options_tokens_def g_strsplit_set_def split: list.splits)

text \<open>
  The fields \<open>g_strsplit_set\<close> produces, joined again with the delimiter bytes that
  separated them, are the string that was split, and no field contains a delimiter.
\<close>

lemma split_set_fields_join:
  "\<exists>f fs ds. split_set_fields s delims = f # fs \<and> length ds = length fs
      \<and> set ds \<subseteq> set delims \<and> s = f @ concat (map2 (#) ds fs)
      \<and> (\<forall>t \<in> set (f # fs). set t \<inter> set delims = {})"
proof (induction s)
  case Nil
  show ?case by simp
next
  case (Cons c s)
  then obtain f fs ds where IH: "split_set_fields s delims = f # fs" "length ds = length fs"
    "set ds \<subseteq> set delims" "s = f @ concat (map2 (#) ds fs)"
    "\<forall>t \<in> set (f # fs). set t \<inter> set delims = {}" by blast
  show ?case
  proof (cases "c \<in> set delims")
    case True
    have "split_set_fields (c # s) delims = [] # f # fs" using True IH(1) by simp
    moreover have "length (c # ds) = length (f # fs)" using IH(2) by simp
    moreover have "set (c # ds) \<subseteq> set delims" using True IH(3) by simp
    moreover have "c # s = [] @ concat (map2 (#) (c # ds) (f # fs))" using IH(4) by simp
    moreover have "\<forall>t \<in> set ([] # f # fs). set t \<inter> set delims = {}" using IH(5) by simp
    ultimately show ?thesis by blast
  next
    case False
    have "split_set_fields (c # s) delims = (c # f) # fs" using False IH(1) by simp
    moreover have "c # s = (c # f) @ concat (map2 (#) ds fs)" using IH(4) by simp
    moreover have "\<forall>t \<in> set ((c # f) # fs). set t \<inter> set delims = {}"
      using IH(5) False by simp
    ultimately show ?thesis using IH(2,3) by blast
  qed
qed

lemma vim_modeline_tokens:
  "parse_options_tokens ''# vim:noexpandtab sw=4 ts=4'' =
     Some [''vim'', ''noexpandtab'', ''sw=4'', ''ts=4'']"
  by (simp add: parse_options_tokens_def g_strsplit_set_def)

text \<open>
  C4, as stated: tokenizing \<open># vim:noexpandtab sw=4 ts=4\<close> yields exactly
  \<open>noexpandtab\<close>, \<open>sw=4\<close>, \<open>ts=4\<close>.  It does not: only the field before the first
  delimiter, \<open>#\<close>, is dropped, and \<open>vim\<close> is handed to the interpreter as a token of its
  own.
\<close>

theorem vim_modeline_tokens_counterexample:
  "parse_options_tokens ''# vim:noexpandtab sw=4 ts=4'' \<noteq>
     Some [''noexpandtab'', ''sw=4'', ''ts=4'']"
  by (simp add: vim_modeline_tokens)

text \<open>
  C4, amended: tokenizing \<open># vim:noexpandtab sw=4 ts=4\<close> yields exactly \<open>vim\<close>,
  \<open>noexpandtab\<close>, \<open>sw=4\<close>, \<open>ts=4\<close>.  In general a non-empty line is split at every
  \<open>:\<close>, space and \<open>,\<close> into fields free of these bytes (joining the fields with the
  delimiters gives the line back), the first field is dropped, and the non-empty tokens
  are the non-empty ones among the remaining fields, in their order.
\<close>

theorem parse_options_tokens_fields:
  "parse_options_tokens ''# vim:noexpandtab sw=4 ts=4'' =
     Some [''vim'', ''noexpandtab'', ''sw=4'', ''ts=4'']
   \<and> (buf \<noteq> [] \<longrightarrow>
        (\<exists>tok0 fields ds toks.
            parse_options_tokens buf = Some toks
          \<and> filter (\<lambda>t. t \<noteq> []) toks = filter (\<lambda>t. t \<noteq> []) fields
          \<and> length ds = length fields \<and> set ds \<subseteq> set '': ,''
          \<and> buf = tok0 @ concat (map2 (#) ds fields)
          \<and> (\<forall>t \<in> set (tok0 # fields). set t \<inter> set '': ,'' = {})))"
proof -
  have "\<exists>tok0 fields ds toks.
            parse_options_tokens buf = Some toks
          \<and> filter (\<lambda>t. t \<noteq> []) toks = filter (\<lambda>t. t \<noteq> []) fields
          \<and> length ds = length fields \<and> set ds \<subseteq> set '': ,''
          \<and> buf = tok0 @ concat (map2 (#) ds fields)
          \<and> (\<forall>t \<in> set (tok0 # fields). set t \<inter> set '': ,'' = {})" if "buf \<noteq> []"
  proof -
    from split_set_fields_join [of buf "'': ,''"]
    obtain f fs ds where j: "split_set_fields buf '': ,'' = f # fs" "length ds = length fs"
      "set ds \<subseteq> set '': ,''" "buf = f @ concat (map2 (#) ds fs)"
      "\<forall>t \<in> set (f # fs). set t \<inter> set '': ,'' = {}" by blast
    from that j(1) have "parse_options_tokens buf = Some fs"
      by (simp add: parse_options_tokens_def g_strsplit_set_def)
    with j(2-5) show ?thesis by blast
  qed
  with vim_modeline_tokens show ?thesis by blast
qed

theorem parse_options_tokens_fields_witness:
  "''# vim:ts=4,,sw=2'' \<noteq> []
   \<and> parse_options_tokens ''# vim:ts=4,,sw=2'' = Some [''vim'', ''ts=4'', [], ''sw=2'']
   \<and> (\<exists>tok0 fields ds toks.
            parse_options_tokens ''# vim:ts=4,,sw=2'' = Some toks
          \<and> filter (\<lambda>t. t \<noteq> []) toks = filter (\<lambda>t. t \<noteq> []) fields
          \<and> length ds = length fields \<and> set ds \<subseteq> set '': ,''
          \<and> ''# vim:ts=4,,sw=2'' = tok0 @ concat (map2 (#) ds fields)
          \<and> (\<forall>t \<in> set (tok0 # fields). set t \<inter> set '': ,'' = {}))"
proof -
  have ne: "''# vim:ts=4,,sw=2'' \<noteq> []" by simp
  have t: "parse_options_tokens ''# vim:ts=4,,sw=2'' = Some [''vim'', ''ts=4'', [], ''sw=2'']"
    by (simp add: parse_options_tokens_def g_strsplit_set_def)
  from parse_options_tokens_fields [of "''# vim:ts=4,,sw=2''"] ne t show ?thesis
    by blast
qed

section \<open>The scanner\<close>

declare scan_lines.simps [simp del]

lemma str_has_prefix_iff: "str_has_prefix s p \<longleftrightarrow> (\<exists>v. s = p @ v)"
  by (induction s p rule: str_has_prefix.induct) auto

text \<open>\<open>g_strstr_len\<close> finds the needle exactly when it is a substring of the haystack.\<close>

lemma g_strstr_len_iff: "g_strstr_len s len p \<noteq> None \<longleftrightarrow> (\<exists>u v. s = u @ p @ v)"
proof (induction s)
  case Nil
  then show ?case by simp
next
  case (Cons c s)
  show ?case
  proof (cases "str_has_prefix (c # s) p")
    case True
    then obtain v where "c # s = p @ v" by (auto simp: str_has_prefix_iff)
    then have "c # s = [] @ p @ v" by simp
    then have "\<exists>u v. c # s = u @ p @ v" by blast
    with True show ?thesis by simp
  next
    case False
    have "(\<exists>u v. c # s = u @ p @ v) \<longleftrightarrow> (\<exists>u v. s = u @ p @ v)"
    proof
      assume "\<exists>u v. c # s = u @ p @ v"
      then obtain u v where uv: "c # s = u @ p @ v" by blast
      show "\<exists>u v. s = u @ p @ v"
      proof (cases u)
        case Nil
        with uv have "str_has_prefix (c # s) p" by (auto simp: str_has_prefix_iff)
        with False show ?thesis by simp
      next
        case (Cons a u')
        with uv have "s = u' @ p @ v" by simp
        then show ?thesis by blast
      qed
    next
      assume "\<exists>u v. s = u @ p @ v"
      then obtain u v where "s = u @ p @ v" by blast
      then have "c # s = (c # u) @ p @ v" by simp
      then show "\<exists>u v. c # s = u @ p @ v" by blast
    qed
    with False Cons.IH show ?thesis by simp
  qed
qed

lemma g_strstr_len_Some_iff:
  "(\<exists>y. g_strstr_len s len p = Some y) \<longleftrightarrow> (\<exists>u v. s = u @ p @ v)"
  using g_strstr_len_iff [of s len p] by auto

lemma g_strstr_len_None_iff:
  "g_strstr_len s len p = None \<longleftrightarrow> \<not> (\<exists>u v. s = u @ p @ v)"
  using g_strstr_len_iff [of s len p] by auto

lemma match_mode_pre_iff:
  "match_mode_pre buf ps \<longleftrightarrow> (\<exists>pre \<in> set ps. \<exists>u v. buf = u @ pre @ v)"
  by (induction ps) (simp_all add: g_strstr_len_Some_iff g_strstr_len_None_iff)

lemma match_mode_pre_contains: "match_mode_pre buf mode_pre = contains_mode_pre buf"
  by (simp add: match_mode_pre_iff contains_mode_pre_def)

lemma contains_mode_pre_not_Nil: "contains_mode_pre buf \<Longrightarrow> buf \<noteq> []"
  by (auto simp: contains_mode_pre_def mode_pre_def)

text \<open>The loop over the lines, from any line on, as a search for the first match.\<close>

lemma scan_lines_find:
  "scan_lines doc (sci_get_line_count doc) line =
     (case find contains_mode_pre (map g_strstrip (drop line (take 50 (sci_lines doc)))) of
        None \<Rightarrow> Some doc
      | Some buf \<Rightarrow> parse_options doc buf)"
proof (induction doc "sci_get_line_count doc" line rule: scan_lines.induct)
  case (1 doc line)
  show ?case
  proof (cases "line < min (sci_get_line_count doc) 50")
    case lt: True
    then have d: "drop line (take 50 (sci_lines doc)) =
        sci_get_line doc line # drop (Suc line) (take 50 (sci_lines doc))"
      by (simp add: sci_get_line_count_def sci_get_line_def Cons_nth_drop_Suc [symmetric])
    show ?thesis
    proof (cases "match_mode_pre (g_strstrip (sci_get_line doc line)) mode_pre")
      case True
      then show ?thesis
        using lt by (subst scan_lines.simps) (simp add: d match_mode_pre_contains)
    next
      case False
      with lt 1 show ?thesis
        by (subst scan_lines.simps) (simp add: d match_mode_pre_contains)
    qed
  next
    case False
    then have "drop line (take 50 (sci_lines doc)) = []"
      by (auto simp add: sci_get_line_count_def)
    with False show ?thesis
      by (subst scan_lines.simps) auto
  qed
qed

lemma scan_document_find:
  "scan_document doc =
     (if is_valid doc
      then (case find contains_mode_pre (map g_strstrip (take 50 (sci_lines doc))) of
              None \<Rightarrow> Some doc
            | Some buf \<Rightarrow> parse_options doc buf)
      else Some doc)"
  using scan_lines_find [of doc 0] by (simp add: scan_document_def)

text \<open>
  C5, as stated: for every document the first line, among the first 50, whose stripped
  form contains a recognized prefix is tokenized.  \<open>scan_document\<close> starts with
  \<open>if (!doc->is_valid) return;\<close>: on a document that is not valid the line is found by
  the search of the claim but never tokenized.
\<close>

theorem scan_document_invalid_counterexample:
  "scan_document (new_document False [''# vim: ts=4'']) \<noteq>
     (case find contains_mode_pre
             (map g_strstrip (take 50 (sci_lines (new_document False [''# vim: ts=4''])))) of
        None \<Rightarrow> Some (new_document False [''# vim: ts=4''])
      | Some buf \<Rightarrow> parse_options (new_document False [''# vim: ts=4'']) buf)"
proof -
  let ?d = "new_document False [''# vim: ts=4'']"
  have l: "scan_document ?d = Some ?d"
    by (simp add: scan_document_def new_document_def)
  have "find contains_mode_pre (map g_strstrip (take 50 (sci_lines ?d))) = Some ''# vim: ts=4''"
    by (simp add: match_mode_pre_contains [symmetric] new_document_def strstrip_eval
        mode_pre_def)
  moreover have "parse_options ?d ''# vim: ts=4'' =
      Some (?d\<lparr>indent_width := 4, calls := [Opt_tab_stop 4]\<rparr>)"
  proof -
    have "parse_options_tokens ''# vim: ts=4'' = Some [''vim'', [], ''ts=4'']"
      by (simp add: parse_options_tokens_def g_strsplit_set_def)
    then show ?thesis
      using interpret_option_ts [of ?d "''4''"]
      by (simp add: parse_options_def interpret_option_no_equals interpret_option_Nil
          strtoull_small_values host_defs new_document_def)
  qed
  moreover have "?d\<lparr>indent_width := 4, calls := [Opt_tab_stop 4]\<rparr> \<noteq> ?d"
    by (simp add: new_document_def)
  ultimately show ?thesis using l by simp
qed

text \<open>
  C5, amended: for every valid document the scanner looks at the lines
  \<open>0 .. min (lineCount, 50) - 1\<close> in order; the first of them whose stripped form
  contains one of the prefixes as a substring, anywhere, is tokenized and interpreted,
  and no later line is looked at; if none of them matches, nothing happens.
\<close>

theorem scan_document_first_modeline:
  assumes "is_valid doc"
  shows "scan_document doc =
     (case find contains_mode_pre (map g_strstrip (take 50 (sci_lines doc))) of
        None \<Rightarrow> Some doc
      | Some buf \<Rightarrow> parse_options doc buf)"
  using assms by (simp add: scan_document_find)

theorem scan_document_first_modeline_witness:
  "is_valid (new_document True [''#!/bin/sh'', ''  # vim: ts=4  '', ''# vim: ts=8''])
   \<and> scan_document (new_document True [''#!/bin/sh'', ''  # vim: ts=4  '', ''# vim: ts=8'']) =
       parse_options (new_document True [''#!/bin/sh'', ''  # vim: ts=4  '', ''# vim: ts=8''])
         ''# vim: ts=4''"
proof -
  let ?d = "new_document True [''#!/bin/sh'', ''  # vim: ts=4  '', ''# vim: ts=8'']"
  have v: "is_valid ?d" by (simp add: new_document_def)
  have "find contains_mode_pre (map g_strstrip (take 50 (sci_lines ?d))) = Some ''# vim: ts=4''"
    by (simp add: match_mode_pre_contains [symmetric] new_document_def strstrip_eval
        mode_pre_def)
  with scan_document_first_modeline [OF v] v show ?thesis by simp
qed

text \<open>
  C6.  When no line among the first \<open>min (lineCount, 50)\<close> contains a recognized prefix
  after stripping, the save hook leaves the document as it is, and the open hook only
  requests the reload: indent style, indent width, line-wrap mode and encoding are
  unchanged and no handler is logged.
\<close>

theorem no_modeline_no_mutation:
  assumes "\<forall>line < min (length (sci_lines doc)) 50.
             \<not> contains_mode_pre (g_strstrip (sci_lines doc ! line))"
  shows "on_document_save doc = Some doc
   \<and> on_document_open doc = Some (document_reload_force doc (encoding doc))
   \<and> config (document_reload_force doc (encoding doc)) = config doc
   \<and> calls (document_reload_force doc (encoding doc)) = calls doc"
proof -
  have "\<not> contains_mode_pre buf"
    if "buf \<in> set (map g_strstrip (take 50 (sci_lines doc)))" for buf
  proof -
    from that obtain l where l: "l \<in> set (take 50 (sci_lines doc))" "buf = g_strstrip l"
      by auto
    then obtain i where i: "i < length (take 50 (sci_lines doc))"
      "take 50 (sci_lines doc) ! i = l"
      by (auto simp: in_set_conv_nth)
    then have "i < min (length (sci_lines doc)) 50" "sci_lines doc ! i = l" by simp_all
    with assms l(2) show ?thesis by blast
  qed
  then have "find contains_mode_pre (map g_strstrip (take 50 (sci_lines doc))) = None"
    by (simp only: find_None_iff) blast
  then have "scan_document doc = Some doc"
    by (simp add: scan_document_find)
  then show ?thesis
    by (simp add: on_document_save_def on_document_open_def config_def
        document_reload_force_def)
qed

theorem no_modeline_no_mutation_witness:
  "on_document_save (new_document True [''int main (void)'', ''{ return 0; } /* vim */''])
     = Some (new_document True [''int main (void)'', ''{ return 0; } /* vim */''])
   \<and> (\<exists>doc'. on_document_open
                (new_document True [''int main (void)'', ''{ return 0; } /* vim */''])
              = Some doc'
            \<and> config doc' =
                config (new_document True [''int main (void)'', ''{ return 0; } /* vim */'']))"
proof -
  let ?d = "new_document True [''int main (void)'', ''{ return 0; } /* vim */'']"
  have "\<not> contains_mode_pre (g_strstrip (sci_lines ?d ! line))"
    if "line < min (length (sci_lines ?d)) 50" for line
  proof -
    from that have "line = 0 \<or> line = 1" by (auto simp: new_document_def)
    then show ?thesis
      by (auto simp add: match_mode_pre_contains [symmetric] new_document_def strstrip_eval
          mode_pre_def)
  qed
  then have "\<forall>line < min (length (sci_lines ?d)) 50.
               \<not> contains_mode_pre (g_strstrip (sci_lines ?d ! line))" by blast
  from no_modeline_no_mutation [OF this] show ?thesis by simp
qed

section \<open>A modeline from end to end\<close>

text \<open>
  C3.  The claim: after the pipeline has run on a document whose first line is
  \<open>// vim: et ts=2 sw=2\<close>, the indent style is spaces and the indent width is 2.  The
  width is 2, set twice by the tab-stop handler, but \<open>et\<close> is a bare flag and never
  reaches its handler: the indent style is whatever it was before, tabs for a document
  that had tabs, after the save hook and after the open hook alike.
\<close>

theorem modeline_et_ts_sw_keeps_indent_type:
  "on_document_save (doc\<lparr>is_valid := True, sci_lines := ''// vim: et ts=2 sw=2'' # rest\<rparr>) =
     Some (doc\<lparr>is_valid := True, sci_lines := ''// vim: et ts=2 sw=2'' # rest,
               indent_width := 2, calls := calls doc @ [Opt_tab_stop 2, Opt_tab_stop 2]\<rparr>)
   \<and> on_document_save (new_document True [''// vim: et ts=2 sw=2'']) =
       Some \<lparr>is_valid = True, sci_lines = [''// vim: et ts=2 sw=2''],
             indent_type = GEANY_INDENT_TYPE_TABS, indent_width = 2, line_wrapping = 0,
             sci_wrap_mode = SC_WRAP_NONE, encoding = ''UTF-8'',
             calls = [Opt_tab_stop 2, Opt_tab_stop 2], reloads = []\<rparr>
   \<and> on_document_open (new_document True [''// vim: et ts=2 sw=2'']) =
       Some \<lparr>is_valid = True, sci_lines = [''// vim: et ts=2 sw=2''],
             indent_type = GEANY_INDENT_TYPE_TABS, indent_width = 2, line_wrapping = 0,
             sci_wrap_mode = SC_WRAP_NONE, encoding = ''UTF-8'',
             calls = [Opt_tab_stop 2, Opt_tab_stop 2], reloads = [''UTF-8'']\<rparr>"
proof -
  have tokens: "parse_options_tokens ''// vim: et ts=2 sw=2'' =
      Some [''vim'', [], ''et'', ''ts=2'', ''sw=2'']"
    by (simp add: parse_options_tokens_def g_strsplit_set_def)
  have ts: "interpret_option d ''ts=2'' = opt_tab_stop d (IArg 2)" for d
    using interpret_option_ts [of d "''2''"] by (simp add: strtoull_small_values)
  have sw: "interpret_option d ''sw=2'' = opt_tab_stop d (IArg 2)" for d
    using interpret_option_sw [of d "''2''"] by (simp add: strtoull_small_values)
  have parse: "parse_options d ''// vim: et ts=2 sw=2'' =
      Some (d\<lparr>indent_width := 2, calls := calls d @ [Opt_tab_stop 2, Opt_tab_stop 2]\<rparr>)" for d
    by (simp add: parse_options_def tokens interpret_option_no_equals interpret_option_Nil
        ts sw host_defs)
  have first: "find contains_mode_pre (map g_strstrip (take 50 (''// vim: et ts=2 sw=2'' # ls))) =
      Some ''// vim: et ts=2 sw=2''" for ls
    by (simp add: match_mode_pre_contains [symmetric] strstrip_eval mode_pre_def
        take_Cons')
  have scan: "scan_document d =
      Some (d\<lparr>indent_width := 2, calls := calls d @ [Opt_tab_stop 2, Opt_tab_stop 2]\<rparr>)"
    if "is_valid d" "sci_lines d = ''// vim: et ts=2 sw=2'' # ls" for d ls
    using that first [of ls] by (simp add: scan_document_find parse)
  have 1: "on_document_save (doc\<lparr>is_valid := True, sci_lines := ''// vim: et ts=2 sw=2'' # rest\<rparr>) =
     Some (doc\<lparr>is_valid := True, sci_lines := ''// vim: et ts=2 sw=2'' # rest,
               indent_width := 2, calls := calls doc @ [Opt_tab_stop 2, Opt_tab_stop 2]\<rparr>)"
    unfolding on_document_save_def by (subst scan [of _ rest]) simp_all
  have 2: "on_document_save (new_document True [''// vim: et ts=2 sw=2'']) =
       Some \<lparr>is_valid = True, sci_lines = [''// vim: et ts=2 sw=2''],
             indent_type = GEANY_INDENT_TYPE_TABS, indent_width = 2, line_wrapping = 0,
             sci_wrap_mode = SC_WRAP_NONE, encoding = ''UTF-8'',
             calls = [Opt_tab_stop 2, Opt_tab_stop 2], reloads = []\<rparr>"
    unfolding on_document_save_def by (subst scan [of _ "[]"]) (simp_all add: new_document_def)
  have 3: "on_document_open (new_document True [''// vim: et ts=2 sw=2'']) =
       Some \<lparr>is_valid = True, sci_lines = [''// vim: et ts=2 sw=2''],
             indent_type = GEANY_INDENT_TYPE_TABS, indent_width = 2, line_wrapping = 0,
             sci_wrap_mode = SC_WRAP_NONE, encoding = ''UTF-8'',
             calls = [Opt_tab_stop 2, Opt_tab_stop 2], reloads = [''UTF-8'']\<rparr>"
    unfolding on_document_open_def
    by (subst scan [of _ "[]"]) (simp_all add: new_document_def document_reload_force_def)
  from 1 2 3 show ?thesis by simp
qed

subsection \<open>What one token can do to a document\<close>

lemma dispatch_option_effect:
  "opt \<in> set opts \<Longrightarrow>
     (\<forall>d. dispatch_option d opt val = d)
   \<or> (\<exists>i. \<forall>d. dispatch_option d opt val = opt_expand_tab d (IArg i))
   \<or> (\<exists>i. \<forall>d. dispatch_option d opt val = opt_tab_stop d (IArg i))
   \<or> (\<exists>i. \<forall>d. dispatch_option d opt val = opt_wrap d (IArg i))
   \<or> (\<exists>s. \<forall>d. dispatch_option d opt val = opt_enc d (SArg s))"
  by (cases val) (auto simp add: opts_def dispatch_option_def)

lemma lookup_option_effect:
  "(\<forall>d. lookup_option d key val os = d)
   \<or> (\<exists>opt \<in> set os. \<forall>d. lookup_option d key val os = dispatch_option d opt val)"
  by (induction os) auto

text \<open>
  Whatever the token, \<open>interpret_option\<close> does nothing or makes exactly one handler call
  whose argument depends on the token alone.
\<close>

lemma interpret_option_effect:
  "(\<forall>d. interpret_option d t = d)
   \<or> (\<exists>i. \<forall>d. interpret_option d t = opt_expand_tab d (IArg i))
   \<or> (\<exists>i. \<forall>d. interpret_option d t = opt_tab_stop d (IArg i))
   \<or> (\<exists>i. \<forall>d. interpret_option d t = opt_wrap d (IArg i))
   \<or> (\<exists>s. \<forall>d. interpret_option d t = opt_enc d (SArg s))"
proof (cases "CHR ''='' \<in> set t")
  case False
  then show ?thesis by (simp add: interpret_option_cases)
next
  case True
  let ?k = "takeWhile (\<lambda>c. c \<noteq> CHR ''='') t"
  let ?v = "Some (tl (dropWhile (\<lambda>c. c \<noteq> CHR ''='') t))"
  have eq: "interpret_option d t = lookup_option d ?k ?v opts" for d
    using True by (simp add: interpret_option_cases)
  from lookup_option_effect [of ?k ?v opts]
  consider "\<forall>d. lookup_option d ?k ?v opts = d"
    | opt where "opt \<in> set opts" "\<forall>d. lookup_option d ?k ?v opts = dispatch_option d opt ?v"
    by auto
  then show ?thesis
  proof cases
    case 1
    then show ?thesis by (simp add: eq)
  next
    case 2
    from dispatch_option_effect [OF 2(1), of ?v] 2(2) show ?thesis
      unfolding eq by presburger
  qed
qed

lemma interpret_option_frame:
  "is_valid (interpret_option d t) = is_valid d
   \<and> sci_lines (interpret_option d t) = sci_lines d
   \<and> reloads (interpret_option d t) = reloads d"
  using interpret_option_effect [of t]
  by (elim disjE exE) (simp_all add: host_defs)

lemma interpret_options_frame:
  "is_valid (interpret_options d toks) = is_valid d
   \<and> sci_lines (interpret_options d toks) = sci_lines d
   \<and> reloads (interpret_options d toks) = reloads d"
  by (induction toks arbitrary: d) (simp_all add: interpret_option_frame)

subsection \<open>Fields that are overwritten or kept\<close>

lemma const_or_id_id: "const_or_id x (\<lambda>d. d)"
  by (simp add: const_or_id_def)

lemma const_or_id_comp:
  "const_or_id x F \<Longrightarrow> const_or_id x G \<Longrightarrow> const_or_id x (\<lambda>d. G (F d))"
  unfolding const_or_id_def by metis

lemma const_or_id_idem: "const_or_id x F \<Longrightarrow> x (F (F d)) = x (F d)"
  unfolding const_or_id_def by metis

lemma handlers_const_or_id:
  "const_or_id indent_type (\<lambda>d. opt_expand_tab d (IArg i))"
  "const_or_id indent_type (\<lambda>d. opt_tab_stop d (IArg i))"
  "const_or_id indent_type (\<lambda>d. opt_wrap d (IArg i))"
  "const_or_id indent_type (\<lambda>d. opt_enc d (SArg s))"
  "const_or_id indent_width (\<lambda>d. opt_expand_tab d (IArg i))"
  "const_or_id indent_width (\<lambda>d. opt_tab_stop d (IArg i))"
  "const_or_id indent_width (\<lambda>d. opt_wrap d (IArg i))"
  "const_or_id indent_width (\<lambda>d. opt_enc d (SArg s))"
  "const_or_id line_wrapping (\<lambda>d. opt_expand_tab d (IArg i))"
  "const_or_id line_wrapping (\<lambda>d. opt_tab_stop d (IArg i))"
  "const_or_id line_wrapping (\<lambda>d. opt_wrap d (IArg i))"
  "const_or_id line_wrapping (\<lambda>d. opt_enc d (SArg s))"
  "const_or_id sci_wrap_mode (\<lambda>d. opt_expand_tab d (IArg i))"
  "const_or_id sci_wrap_mode (\<lambda>d. opt_tab_stop d (IArg i))"
  "const_or_id sci_wrap_mode (\<lambda>d. opt_wrap d (IArg i))"
  "const_or_id sci_wrap_mode (\<lambda>d. opt_enc d (SArg s))"
  "const_or_id encoding (\<lambda>d. opt_expand_tab d (IArg i))"
  "const_or_id encoding (\<lambda>d. opt_tab_stop d (IArg i))"
  "const_or_id encoding (\<lambda>d. opt_wrap d (IArg i))"
  "const_or_id encoding (\<lambda>d. opt_enc d (SArg s))"
  by (simp_all add: const_or_id_def host_defs)

lemma const_or_id_interpret_option:
  assumes "\<And>i. const_or_id x (\<lambda>d. opt_expand_tab d (IArg i))"
    and "\<And>i. const_or_id x (\<lambda>d. opt_tab_stop d (IArg i))"
    and "\<And>i. const_or_id x (\<lambda>d. opt_wrap d (IArg i))"
    and "\<And>s. const_or_id x (\<lambda>d. opt_enc d (SArg s))"
  shows "const_or_id x (\<lambda>d. interpret_option d t)"
  using interpret_option_effect [of t] assms const_or_id_id [of x]
  by (elim disjE exE) simp_all

lemma const_or_id_interpret_options:
  assumes "\<And>t. const_or_id x (\<lambda>d. interpret_option d t)"
  shows "const_or_id x (\<lambda>d. interpret_options d toks)"
proof (induction toks)
  case Nil
  show ?case by (simp add: const_or_id_id)
next
  case (Cons t toks)
  from const_or_id_comp [OF assms [of t] Cons] show ?case by simp
qed

lemma config_const_or_id:
  "const_or_id indent_type (\<lambda>d. interpret_options d toks)"
  "const_or_id indent_width (\<lambda>d. interpret_options d toks)"
  "const_or_id line_wrapping (\<lambda>d. interpret_options d toks)"
  "const_or_id sci_wrap_mode (\<lambda>d. interpret_options d toks)"
  "const_or_id encoding (\<lambda>d. interpret_options d toks)"
  by (intro const_or_id_interpret_options const_or_id_interpret_option handlers_const_or_id)+

lemma config_const_or_id_reload:
  "const_or_id indent_type (\<lambda>d. document_reload_force d (encoding d))"
  "const_or_id indent_width (\<lambda>d. document_reload_force d (encoding d))"
  "const_or_id line_wrapping (\<lambda>d. document_reload_force d (encoding d))"
  "const_or_id sci_wrap_mode (\<lambda>d. document_reload_force d (encoding d))"
  "const_or_id encoding (\<lambda>d. document_reload_force d (encoding d))"
  by (simp_all add: const_or_id_def document_reload_force_def)

lemma config_idem:
  assumes "const_or_id indent_type F" "const_or_id indent_width F"
    "const_or_id line_wrapping F" "const_or_id sci_wrap_mode F" "const_or_id encoding F"
  shows "config (F (F d)) = config (F d)"
  using assms by (simp add: config_def const_or_id_idem)

subsection \<open>The scanner always returns\<close>

text \<open>
  \<open>parse_options\<close> is only reached with a line that contains a prefix, which is not
  empty: the token vector has its first entry and the loop never starts past the end.
\<close>

lemma scan_document_total:
  "scan_document doc = Some (interpret_options doc (modeline_tokens doc))"
proof (cases "is_valid doc")
  case False
  then show ?thesis by (simp add: scan_document_find modeline_tokens_def)
next
  case True
  show ?thesis
  proof (cases "find contains_mode_pre (map g_strstrip (take 50 (sci_lines doc)))")
    case None
    with True show ?thesis by (simp add: scan_document_find modeline_tokens_def)
  next
    case (Some buf)
    then have "contains_mode_pre buf" by (auto simp: find_Some_iff)
    then have "buf \<noteq> []" by (rule contains_mode_pre_not_Nil)
    then obtain toks where "parse_options_tokens buf = Some toks"
      using parse_options_tokens_Some by blast
    with True Some show ?thesis
      by (simp add: scan_document_find modeline_tokens_def parse_options_def)
  qed
qed

lemma modeline_tokens_cong:
  "is_valid d = is_valid doc \<Longrightarrow> sci_lines d = sci_lines doc \<Longrightarrow>
     modeline_tokens d = modeline_tokens doc"
  by (simp add: modeline_tokens_def)

text \<open>
  C9.  Running a hook a second time on the document the first run returned (same lines)
  gives the same indent style, indent width, line-wrap mode and encoding as the first
  run: for the save hook, for the open hook, and for a save after an open.  Both runs
  return.
\<close>

theorem pipeline_idempotent:
  "(\<exists>d1 d2. on_document_save doc = Some d1 \<and> on_document_save d1 = Some d2
        \<and> config d2 = config d1)
   \<and> (\<exists>d1 d2. on_document_open doc = Some d1 \<and> on_document_open d1 = Some d2
        \<and> config d2 = config d1)
   \<and> (\<exists>d1 d2. on_document_open doc = Some d1 \<and> on_document_save d1 = Some d2
        \<and> config d2 = config d1)"
proof -
  let ?I = "\<lambda>d. interpret_options d (modeline_tokens doc)"
  let ?R = "\<lambda>d. document_reload_force d (encoding d)"
  let ?F = "\<lambda>d. ?R (?I d)"
  have save: "on_document_save d = Some (?I d)" and "open": "on_document_open d = Some (?F d)"
    if "is_valid d = is_valid doc" "sci_lines d = sci_lines doc" for d
    using modeline_tokens_cong [OF that]
    by (simp_all add: on_document_save_def on_document_open_def scan_document_total)
  have I: "is_valid (?I d) = is_valid d" "sci_lines (?I d) = sci_lines d" for d
    by (simp_all add: interpret_options_frame)
  have F: "is_valid (?F d) = is_valid d" "sci_lines (?F d) = sci_lines d" for d
    by (simp_all add: interpret_options_frame document_reload_force_def)
  have cI: "config (?I (?I doc)) = config (?I doc)"
    by (rule config_idem) (rule config_const_or_id)+
  have cF: "config (?F (?F doc)) = config (?F doc)"
    by (rule config_idem)
      (rule const_or_id_comp [OF config_const_or_id(1) config_const_or_id_reload(1)]
        const_or_id_comp [OF config_const_or_id(2) config_const_or_id_reload(2)]
        const_or_id_comp [OF config_const_or_id(3) config_const_or_id_reload(3)]
        const_or_id_comp [OF config_const_or_id(4) config_const_or_id_reload(4)]
        const_or_id_comp [OF config_const_or_id(5) config_const_or_id_reload(5)])+
  have R: "config (?R d) = config d" for d
    by (simp add: config_def document_reload_force_def)
  have "config (?R (?I (?F doc))) = config (?F doc)" using cF .
  then have cIF: "config (?I (?F doc)) = config (?F doc)" by (simp only: R)
  have 1: "\<exists>d1 d2. on_document_save doc = Some d1 \<and> on_document_save d1 = Some d2
        \<and> config d2 = config d1"
    using save [of doc] save [of "?I doc"] I cI by simp
  have 2: "\<exists>d1 d2. on_document_open doc = Some d1 \<and> on_document_open d1 = Some d2
        \<and> config d2 = config d1"
    using "open" [of doc] "open" [of "?F doc"] F cF by simp
  have 3: "\<exists>d1 d2. on_document_open doc = Some d1 \<and> on_document_save d1 = Some d2
        \<and> config d2 = config d1"
    using "open" [of doc] save [of "?F doc"] F cIF by simp
  from 1 2 3 show ?thesis by blast
qed

section \<open>Integer options\<close>

subsection \<open>What \<open>g_ascii_strtoull\<close> and the narrowing to \<open>gint\<close> return\<close>

lemma dec_from_ge: "acc \<le> dec_from acc s"
proof (induction s arbitrary: acc)
  case Nil
  show ?case by simp
next
  case (Cons c s)
  have "acc \<le> 10 * acc + (of_char c - 48)" by simp
  also have "\<dots> \<le> dec_from (10 * acc + (of_char c - 48)) s" by (rule Cons)
  finally show ?case by simp
qed

lemma digit_value_digit: "is_digit c \<Longrightarrow> digit_value c = Some (of_char c - 48)"
  by (simp add: is_digit_def digit_value_def)

lemma digit_value_not_digit:
  "\<not> is_digit c \<Longrightarrow> (case digit_value c of None \<Rightarrow> True | Some d \<Rightarrow> 10 \<le> d)"
  by (simp add: is_digit_def digit_value_def Let_def) arith

text \<open>On digits whose value fits 64 bits the loop computes that value, without overflow.\<close>

lemma parse_digits_all:
  "list_all is_digit s \<Longrightarrow> dec_from acc s \<le> G_MAXUINT64 \<Longrightarrow>
     parse_digits 10 s (acc, ov, used) = (dec_from acc s, ov, used + length s)"
proof (induction s arbitrary: acc used)
  case Nil
  show ?case by simp
next
  case (Cons c s)
  let ?d = "of_char c - 48 :: nat"
  from Cons.prems have c: "is_digit c" and s: "list_all is_digit s" by simp_all
  then have d: "?d < 10" by (auto simp: is_digit_def)
  have "10 * acc + ?d \<le> dec_from (10 * acc + ?d) s" by (rule dec_from_ge)
  also have "\<dots> \<le> G_MAXUINT64" using Cons.prems by simp
  finally have le: "10 * acc + ?d \<le> 18446744073709551615" by (simp add: G_MAXUINT64_def)
  have no: "\<not> (acc > G_MAXUINT64 div 10
              \<or> (acc = G_MAXUINT64 div 10 \<and> ?d > G_MAXUINT64 mod 10))"
    using le d by (simp add: G_MAXUINT64_def)
  have "parse_digits 10 (c # s) (acc, ov, used) = parse_digits 10 s (acc * 10 + ?d, ov, Suc used)"
    using no d by (auto simp add: digit_value_digit [OF c])
  also have "\<dots> = (dec_from (acc * 10 + ?d) s, ov, Suc used + length s)"
    using Cons.prems s by (intro Cons.IH) (simp_all add: mult.commute)
  finally show ?case by (simp add: mult.commute)
qed

lemma parse_digits_stop:
  assumes "\<not> is_digit c"
  shows "parse_digits 10 (c # s) st = st"
proof -
  obtain ui64 overflow used where st: "st = (ui64, overflow, used)"
    by (cases st) auto
  from digit_value_not_digit [OF assms] show ?thesis
    unfolding st by (cases "digit_value c") simp_all
qed

lemma g_ascii_strtoull_unfold:
  "g_ascii_strtoull nptr base =
     (case parse_digits base (strtoull_subject nptr) (0, False, 0) of
        (ui64, overflow, used) \<Rightarrow>
          let result = (if used = 0 then 0 else if overflow then G_MAXUINT64 else ui64)
          in if strtoull_negative nptr then (2 ^ 64 - result) mod 2 ^ 64 else result)"
  by (simp add: g_ascii_strtoull_def)

lemma digit_not_space_sign:
  "is_digit c \<Longrightarrow> \<not> strtoull_isspace c \<and> c \<noteq> CHR ''-'' \<and> c \<noteq> CHR ''+''"
  by (auto simp: is_digit_def strtoull_isspace_def)

lemma g_ascii_strtoull_digits:
  assumes "s \<noteq> []" "list_all is_digit s" "dec_value s < 2 ^ 64"
  shows "g_ascii_strtoull s 10 = dec_value s"
proof -
  from assms(1) obtain c r where s: "s = c # r" by (cases s) auto
  with assms(2) have "is_digit c" by simp
  note c = digit_not_space_sign [OF this]
  have subj: "strtoull_subject s = s" "\<not> strtoull_negative s"
    using c by (simp_all add: strtoull_subject_def strtoull_negative_def s)
  have "dec_from 0 s \<le> G_MAXUINT64"
    using assms(3) by (simp add: dec_value_def G_MAXUINT64_def)
  from parse_digits_all [OF assms(2) this, of False 0]
  have "parse_digits 10 s (0, False, 0) = (dec_value s, False, length s)"
    by (simp add: dec_value_def)
  then show ?thesis
    using assms(1) by (simp add: g_ascii_strtoull_unfold subj)
qed

lemma g_ascii_strtoull_no_digit:
  assumes "case strtoull_subject s of [] \<Rightarrow> True | c # r \<Rightarrow> \<not> is_digit c"
  shows "g_ascii_strtoull s 10 = 0"
proof -
  have "parse_digits 10 (strtoull_subject s) (0, False, 0) = (0, False, 0)"
  proof (cases "strtoull_subject s")
    case Nil
    then show ?thesis by simp
  next
    case (Cons c r)
    with assms have "\<not> is_digit c" by simp
    then show ?thesis unfolding Cons by (rule parse_digits_stop)
  qed
  then show ?thesis by (simp add: g_ascii_strtoull_unfold)
qed

lemma gint_of_guint64_small: "n < 2 ^ 31 \<Longrightarrow> gint_of_guint64 n = int n"
  by (simp add: gint_of_guint64_def)

subsection \<open>Keys that name an integer option\<close>

lemma of_char_int_0: "(of_char c :: int) = 0 \<longleftrightarrow> c = CHR 0x00"
proof -
  have "(of_char c :: int) = of_char (CHR 0x00) \<longleftrightarrow> c = CHR 0x00"
    by (rule of_char_eq_iff)
  then show ?thesis by simp
qed

text \<open>
  On strings without a NUL byte (C strings have none) \<open>g_ascii_strcasecmp\<close> returns 0
  exactly when the two strings are equal up to the case of ASCII letters.
\<close>

lemma g_ascii_strcasecmp_0_iff:
  "CHR 0x00 \<notin> set a \<Longrightarrow> CHR 0x00 \<notin> set b \<Longrightarrow>
     g_ascii_strcasecmp a b = 0 \<longleftrightarrow> map g_ascii_tolower a = map g_ascii_tolower b"
  by (induction a b rule: g_ascii_strcasecmp.induct) (auto simp: of_char_int_0)

lemma lowered_no_NUL:
  assumes "CHR 0x00 \<notin> set (map g_ascii_tolower key)"
  shows "CHR 0x00 \<notin> set key"
proof
  assume "CHR 0x00 \<in> set key"
  then have "g_ascii_tolower (CHR 0x00) \<in> set (map g_ascii_tolower key)" by simp
  with assms show False by (simp add: g_ascii_tolower_def)
qed

lemma lowered_no_equals:
  assumes "CHR ''='' \<notin> set (map g_ascii_tolower key)"
  shows "CHR ''='' \<notin> set key"
proof
  assume "CHR ''='' \<in> set key"
  then have "g_ascii_tolower (CHR ''='') \<in> set (map g_ascii_tolower key)" by simp
  with assms show False by (simp add: g_ascii_tolower_def)
qed

lemma tolower_names:
  "map g_ascii_tolower ''expandtab'' = ''expandtab''"
  "map g_ascii_tolower ''et'' = ''et''"
  "map g_ascii_tolower ''noexpandtab'' = ''noexpandtab''"
  "map g_ascii_tolower ''tabstop'' = ''tabstop''"
  "map g_ascii_tolower ''ts'' = ''ts''"
  "map g_ascii_tolower ''softtabstop'' = ''softtabstop''"
  "map g_ascii_tolower ''sts'' = ''sts''"
  "map g_ascii_tolower ''shiftwidth'' = ''shiftwidth''"
  "map g_ascii_tolower ''sw'' = ''sw''"
  by (simp_all add: g_ascii_tolower_def)

lemma lookup_option_opts_int:
  assumes "g_ascii_strcasecmp ''expandtab'' key \<noteq> 0"
    "g_ascii_strcasecmp ''et'' key \<noteq> 0"
    "g_ascii_strcasecmp ''noexpandtab'' key \<noteq> 0"
    and "g_ascii_strcasecmp ''tabstop'' key = 0 \<or> g_ascii_strcasecmp ''ts'' key = 0
       \<or> g_ascii_strcasecmp ''softtabstop'' key = 0 \<or> g_ascii_strcasecmp ''sts'' key = 0
       \<or> g_ascii_strcasecmp ''shiftwidth'' key = 0 \<or> g_ascii_strcasecmp ''sw'' key = 0"
  shows "lookup_option doc key val opts =
     (case val of
        None \<Rightarrow> doc
      | Some v \<Rightarrow> opt_tab_stop doc (IArg (gint_of_guint64 (g_ascii_strtoull (g_strstrip v) 10))))"
proof -
  let ?r = "case val of
        None \<Rightarrow> doc
      | Some v \<Rightarrow> opt_tab_stop doc (IArg (gint_of_guint64 (g_ascii_strtoull (g_strstrip v) 10)))"
  have d: "dispatch_option doc \<lparr>name = n, alias_name = a, arg_type = MODE_OPT_ARG_INT,
      cb = opt_tab_stop\<rparr> val = ?r" for n a
    by (simp add: dispatch_option_def split: option.split)
  have "lookup_option doc key val opts = lookup_option doc key val (drop 2 opts)"
    using assms(1-3) by (simp add: opts_def del: g_ascii_strcasecmp.simps)
  also have "\<dots> = ?r"
    using assms(4)
    by (auto simp add: opts_def d simp del: g_ascii_strcasecmp.simps opt_tab_stop.simps)
  finally show ?thesis .
qed

lemma lookup_option_int_key:
  assumes "map g_ascii_tolower key \<in>
     {''tabstop'', ''ts'', ''softtabstop'', ''sts'', ''shiftwidth'', ''sw''}"
  shows "lookup_option doc key val opts =
     (case val of
        None \<Rightarrow> doc
      | Some v \<Rightarrow> opt_tab_stop doc (IArg (gint_of_guint64 (g_ascii_strtoull (g_strstrip v) 10))))"
proof -
  define k where "k = map g_ascii_tolower key"
  from assms have "CHR 0x00 \<notin> set (map g_ascii_tolower key)" by auto
  then have nul: "CHR 0x00 \<notin> set key" by (rule lowered_no_NUL)
  have cmp: "g_ascii_strcasecmp a key = 0 \<longleftrightarrow> map g_ascii_tolower a = k"
    if "CHR 0x00 \<notin> set a" for a
    unfolding k_def using that nul by (rule g_ascii_strcasecmp_0_iff)
  have c: "g_ascii_strcasecmp ''expandtab'' key = 0 \<longleftrightarrow> ''expandtab'' = k"
    "g_ascii_strcasecmp ''et'' key = 0 \<longleftrightarrow> ''et'' = k"
    "g_ascii_strcasecmp ''noexpandtab'' key = 0 \<longleftrightarrow> ''noexpandtab'' = k"
    "g_ascii_strcasecmp ''tabstop'' key = 0 \<longleftrightarrow> ''tabstop'' = k"
    "g_ascii_strcasecmp ''ts'' key = 0 \<longleftrightarrow> ''ts'' = k"
    "g_ascii_strcasecmp ''softtabstop'' key = 0 \<longleftrightarrow> ''softtabstop'' = k"
    "g_ascii_strcasecmp ''sts'' key = 0 \<longleftrightarrow> ''sts'' = k"
    "g_ascii_strcasecmp ''shiftwidth'' key = 0 \<longleftrightarrow> ''shiftwidth'' = k"
    "g_ascii_strcasecmp ''sw'' key = 0 \<longleftrightarrow> ''sw'' = k"
    by (subst cmp, simp, simp only: tolower_names)+
  from assms have k: "k \<in> {''tabstop'', ''ts'', ''softtabstop'', ''sts'', ''shiftwidth'', ''sw''}"
    by (simp only: k_def)
  then have no: "''expandtab'' \<noteq> k" "''et'' \<noteq> k" "''noexpandtab'' \<noteq> k"
    by auto
  from k have yes: "''tabstop'' = k \<or> ''ts'' = k \<or> ''softtabstop'' = k \<or> ''sts'' = k
      \<or> ''shiftwidth'' = k \<or> ''sw'' = k"
    by auto
  show ?thesis
    by (rule lookup_option_opts_int) (simp_all only: c no yes not_False_eq_True)
qed

text \<open>
  C7, as stated: the value of an integer option is parsed as an unsigned base-10 integer
  and the handler is invoked with the result.  The result of \<open>g_ascii_strtoull\<close> is a
  \<open>guint64\<close> and is stored in the \<open>gint iarg\<close> before the handler sees it: for
  \<open>ts=4294967296\<close> the handler is invoked with 0, not with 4294967296.
\<close>

theorem integer_option_narrowing_counterexample:
  "dec_value ''4294967296'' = 4294967296
   \<and> interpret_option (new_document True []) ''ts=4294967296'' =
       opt_tab_stop (new_document True []) (IArg 0)
   \<and> interpret_option (new_document True []) ''ts=4294967296'' \<noteq>
       opt_tab_stop (new_document True []) (IArg (int (dec_value ''4294967296'')))"
proof -
  have v: "dec_value ''4294967296'' = 4294967296"
    by (simp add: dec_value_def)
  have "gint_of_guint64 (g_ascii_strtoull (g_strstrip ''4294967296'') 10) = 0"
    by (simp add: strstrip_eval strtoull_eval)
  with interpret_option_ts [of "new_document True []" "''4294967296''"]
  have i: "interpret_option (new_document True []) ''ts=4294967296'' =
      opt_tab_stop (new_document True []) (IArg 0)" by simp
  have "opt_tab_stop (new_document True []) (IArg 0) \<noteq>
      opt_tab_stop (new_document True []) (IArg 4294967296)"
    by (simp add: host_defs new_document_def)
  with v i show ?thesis by simp
qed

text \<open>
  C7, amended.  For a token \<open>key=value\<close> whose key is, up to case, one of \<open>tabstop\<close>,
  \<open>ts\<close>, \<open>softtabstop\<close>, \<open>sts\<close>, \<open>shiftwidth\<close>, \<open>sw\<close> and whose value is not empty:
  the value is stripped of surrounding white space and parsed by \<open>g_ascii_strtoull\<close> in
  base 10, the result is narrowed to the 32-bit signed \<open>gint\<close>, and the tab-stop handler
  is invoked with that integer.  When the stripped value is a non-empty string of decimal
  digits denoting a number below \<open>2 ^ 31\<close>, the integer is that number; when no decimal
  digit follows the optional white space and sign, the handler is still invoked, with 0.
  For the key alone, without \<open>=\<close>, no handler is invoked.  Nothing is said of a token
  that ends with \<open>=\<close>.
\<close>

theorem integer_option_dispatch:
  assumes "map g_ascii_tolower key \<in>
     {''tabstop'', ''ts'', ''softtabstop'', ''sts'', ''shiftwidth'', ''sw''}"
    and "val \<noteq> []"
  shows "interpret_option doc (key @ CHR ''='' # val) =
       opt_tab_stop doc (IArg (gint_of_guint64 (g_ascii_strtoull (g_strstrip val) 10)))
   \<and> (g_strstrip val \<noteq> [] \<and> list_all is_digit (g_strstrip val)
        \<and> dec_value (g_strstrip val) < 2 ^ 31 \<longrightarrow>
      gint_of_guint64 (g_ascii_strtoull (g_strstrip val) 10) = int (dec_value (g_strstrip val)))
   \<and> ((case strtoull_subject (g_strstrip val) of [] \<Rightarrow> True | c # r \<Rightarrow> \<not> is_digit c) \<longrightarrow>
      gint_of_guint64 (g_ascii_strtoull (g_strstrip val) 10) = 0)
   \<and> interpret_option doc key = doc"
proof -
  from assms(1) have "CHR ''='' \<notin> set (map g_ascii_tolower key)" by auto
  then have ne: "CHR ''='' \<notin> set key" by (rule lowered_no_equals)
  have 1: "interpret_option doc (key @ CHR ''='' # val) =
       opt_tab_stop doc (IArg (gint_of_guint64 (g_ascii_strtoull (g_strstrip val) 10)))"
    by (simp add: interpret_option_key_value [OF ne] lookup_option_int_key [OF assms(1)])
  have 2: "gint_of_guint64 (g_ascii_strtoull (g_strstrip val) 10) = int (dec_value (g_strstrip val))"
    if "g_strstrip val \<noteq> []" "list_all is_digit (g_strstrip val)"
      "dec_value (g_strstrip val) < 2 ^ 31"
  proof -
    from that(3) have "dec_value (g_strstrip val) < 2 ^ 64" by simp
    with that(1,2) have "g_ascii_strtoull (g_strstrip val) 10 = dec_value (g_strstrip val)"
      by (rule g_ascii_strtoull_digits)
    with that(3) show ?thesis by (simp add: gint_of_guint64_small)
  qed
  have 3: "gint_of_guint64 (g_ascii_strtoull (g_strstrip val) 10) = 0"
    if "case strtoull_subject (g_strstrip val) of [] \<Rightarrow> True | c # r \<Rightarrow> \<not> is_digit c"
    using g_ascii_strtoull_no_digit [OF that] by (simp add: gint_of_guint64_def)
  have 4: "interpret_option doc key = doc"
    using ne by (rule interpret_option_no_equals)
  from 1 2 3 4 show ?thesis by blast
qed

theorem integer_option_dispatch_witness:
  "map g_ascii_tolower ''TabStop'' \<in>
     {''tabstop'', ''ts'', ''softtabstop'', ''sts'', ''shiftwidth'', ''sw''}
   \<and> ''40'' \<noteq> [] \<and> ''x'' \<noteq> []
   \<and> interpret_option (new_document True []) ''TabStop=40'' =
       opt_tab_stop (new_document True []) (IArg 40)
   \<and> interpret_option (new_document True []) ''TabStop=x'' =
       opt_tab_stop (new_document True []) (IArg 0)
   \<and> interpret_option (new_document True []) ''TabStop'' = new_document True []"
proof -
  let ?D = "new_document True []"
  have k: "map g_ascii_tolower ''TabStop'' \<in>
     {''tabstop'', ''ts'', ''softtabstop'', ''sts'', ''shiftwidth'', ''sw''}"
    by (simp add: g_ascii_tolower_def char_of_eq_iff)
  have n40: "''40'' \<noteq> []" and nx: "''x'' \<noteq> []" by simp_all
  note a = integer_option_dispatch [OF k n40, of ?D]
  note b = integer_option_dispatch [OF k nx, of ?D]
  have s: "g_strstrip ''40'' = ''40''" "g_strstrip ''x'' = ''x''"
    by (simp_all add: strstrip_eval)
  from a have "gint_of_guint64 (g_ascii_strtoull (g_strstrip ''40'') 10) = 40"
    by (simp add: s is_digit_def dec_value_def)
  with a have 1: "interpret_option ?D ''TabStop=40'' = opt_tab_stop ?D (IArg 40)"
    by simp
  from b have "gint_of_guint64 (g_ascii_strtoull (g_strstrip ''x'') 10) = 0"
    by (simp add: s strtoull_subject_def strtoull_isspace_def is_digit_def)
  with b have 2: "interpret_option ?D ''TabStop=x'' = opt_tab_stop ?D (IArg 0)"
    by simp
  from a have 3: "interpret_option ?D ''TabStop'' = ?D" by simp
  from k n40 nx 1 2 3 show ?thesis by blast
qed

end
